theory Spec2Isabelle
  imports Main "HOL-Library.Word"
begin

unbundle bit_operations_syntax

section \<open>Machine types of \<^verbatim>\<open>hash.c\<close>\<close>

text \<open>
  The file is compiled for a 64-bit OCaml runtime: its opening comment stores the
  32-bit hash state in an OCaml \<^verbatim>\<open>int\<close>, which needs the 63-bit tagged integers
  of a 64-bit platform, and \<^verbatim>\<open>Ppx_fold_blob\<close> speaks of "the upper 32 bits" of a
  length.  So \<^verbatim>\<open>intnat\<close>, \<^verbatim>\<open>uintnat\<close>, \<^verbatim>\<open>mlsize_t\<close> and \<^verbatim>\<open>value\<close> are 64-bit words,
  \<^verbatim>\<open>uint32_t\<close> and \<^verbatim>\<open>int\<close> are 32-bit words, and \<^verbatim>\<open>uint8_t\<close> is a byte.  Signed and
  unsigned C types of one width share a word type; the conversions between widths
  are written out (\<open>ucast\<close> truncates or zero-extends).
\<close>

type_synonym uint8_t = "8 word"
type_synonym uint32_t = "32 word"
type_synonym intnat = "64 word"
type_synonym mlsize_t = "64 word"
type_synonym value_t = "64 word"

subsection \<open>Tagged integers\<close>

text \<open>
  Modelled from the spec: the macros \<^verbatim>\<open>Long_val\<close>, \<^verbatim>\<open>Val_long\<close>, \<^verbatim>\<open>Int_val\<close> and
  \<^verbatim>\<open>Val_int\<close> of \<^verbatim>\<open>caml/mlvalues.h\<close>, which is included by \<^verbatim>\<open>hash.c\<close> but is not part
  of the sources.  The spec calls the representation a tagged integer wide enough
  to hold the 32-bit state without loss; in the OCaml runtime an integer \<open>n\<close> is the
  word \<open>2 * n + 1\<close>, read back by an arithmetic shift right by one.
  \<^verbatim>\<open>Int_val\<close> casts the result to a C \<^verbatim>\<open>int\<close>, here 32 bits.
\<close>

definition Long_val :: "value_t \<Rightarrow> intnat" where
  "Long_val x = signed_drop_bit 1 x"

definition Val_long :: "intnat \<Rightarrow> value_t" where
  "Val_long x = push_bit 1 x + 1"

definition Int_val :: "value_t \<Rightarrow> 32 word" where
  "Int_val x = ucast (Long_val x)"

definition Val_int :: "intnat \<Rightarrow> value_t" where
  "Val_int x = Val_long x"

section \<open>The macros of \<^verbatim>\<open>hash.c\<close>\<close>

text \<open>
  \<^verbatim>\<open>FINAL_MIX(h)\<close> updates the variable \<open>h\<close> in five assignments; the model returns
  the last value of \<open>h\<close>.
\<close>

definition FINAL_MIX :: "uint32_t \<Rightarrow> uint32_t" where
  "FINAL_MIX h0 =
    (let h1 = h0 XOR drop_bit 16 h0;
         h2 = h1 * 0x85ebca6b;
         h3 = h2 XOR drop_bit 13 h2;
         h4 = h3 * 0xc2b2ae35;
         h5 = h4 XOR drop_bit 16 h4
     in h5)"

text \<open>\<^verbatim>\<open>#define ROTL32(x,n) ((x) << n | (x) >> (32-n))\<close>\<close>

definition ROTL32 :: "uint32_t \<Rightarrow> nat \<Rightarrow> uint32_t" where
  "ROTL32 x n = push_bit n x OR drop_bit (32 - n) x"

text \<open>
  \<^verbatim>\<open>MIX(h,d)\<close> assigns to both of its arguments; no caller reads \<open>d\<close> afterwards, so
  the model returns the new \<open>h\<close>.
\<close>

definition MIX :: "uint32_t \<Rightarrow> uint32_t \<Rightarrow> uint32_t" where
  "MIX h0 d0 =
    (let d1 = d0 * 0xcc9e2d51;
         d2 = ROTL32 d1 15;
         d3 = d2 * 0x1b873593;
         h1 = h0 XOR d3;
         h2 = ROTL32 h1 13;
         h3 = h2 * 5 + 0xe6546b64
     in h3)"

section \<open>Finalization\<close>

text \<open>
  \<^verbatim>\<open>uint32_t h = Int_val(st); FINAL_MIX(h); return Val_int(h & 0x3FFFFFFFU);\<close>
  The argument of \<^verbatim>\<open>Val_int\<close> is an unsigned 32-bit value, which the macro's cast to
  \<^verbatim>\<open>intnat\<close> zero-extends.
\<close>

definition Ppx_get_hash_value :: "value_t \<Rightarrow> value_t" where
  "Ppx_get_hash_value st =
    (let h = Int_val st;
         h = FINAL_MIX h
     in Val_int (ucast (h AND 0x3FFFFFFF)))"

section \<open>The block and byte mixer\<close>

text \<open>
  The buffer \<^verbatim>\<open>uint8_t *s\<close> is the list of its bytes and \<^verbatim>\<open>s[i]\<close> is \<open>s ! unat i\<close>; the
  theorems below read it only where \<open>length s = unat len\<close> puts every index in range.
  The four bytes of a block are joined in little-endian order; both branches of
  \<^verbatim>\<open>#ifdef ARCH_BIG_ENDIAN\<close> compute this word (the native read on a little-endian
  host, the explicit shifts on a big-endian one).
\<close>

definition block_word :: "uint8_t list \<Rightarrow> mlsize_t \<Rightarrow> uint32_t" where
  "block_word s i =
     ucast (s ! unat i)
     OR push_bit 8 (ucast (s ! unat (i + 1)))
     OR push_bit 16 (ucast (s ! unat (i + 2)))
     OR push_bit 24 (ucast (s ! unat (i + 3)))"

text \<open>
  \<^verbatim>\<open>for (i = 0; i + 4 <= len; i += 4) { w = ...; MIX(h, w); }\<close>
  The index is an \<^verbatim>\<open>mlsize_t\<close> and \<open>i + 4\<close> wraps around, so the loop is not total on
  all of \<open>64 word\<close>: not returning is the value \<open>None\<close>.  The loop returns the index
  and the state it ends with.
\<close>

partial_function (option) blob_loop ::
  "uint8_t list \<Rightarrow> mlsize_t \<Rightarrow> mlsize_t \<Rightarrow> uint32_t \<Rightarrow> (mlsize_t \<times> uint32_t) option" where
  "blob_loop s len i h =
     (if i + 4 \<le> len
      then blob_loop s len (i + 4) (MIX h (block_word s i))
      else Some (i, h))"

text \<open>
  The \<^verbatim>\<open>switch (len & 3)\<close> with its fall-through: case 3 sets \<open>w\<close> and falls into
  case 2, which falls into case 1, which runs \<^verbatim>\<open>MIX\<close>; the default case does nothing.
\<close>

definition blob_tail :: "uint8_t list \<Rightarrow> mlsize_t \<Rightarrow> mlsize_t \<Rightarrow> uint32_t \<Rightarrow> uint32_t" where
  "blob_tail s len i h =
    (let r = len AND 3;
         w0 = (0 :: uint32_t);
         w1 = (if r = 3 then push_bit 16 (ucast (s ! unat (i + 2))) else w0);
         w2 = (if r = 3 \<or> r = 2 then w1 OR push_bit 8 (ucast (s ! unat (i + 1))) else w1);
         w3 = (if r = 3 \<or> r = 2 \<or> r = 1 then w2 OR ucast (s ! unat i) else w2)
     in if r = 3 \<or> r = 2 \<or> r = 1 then MIX h w3 else h)"

definition Ppx_fold_blob :: "uint32_t \<Rightarrow> mlsize_t \<Rightarrow> uint8_t list \<Rightarrow> uint32_t option" where
  "Ppx_fold_blob h len s =
    (case blob_loop s len 0 h of
       None \<Rightarrow> None
     | Some (i, h1) \<Rightarrow>
         (let h2 = blob_tail s len i h1;
              h3 = h2 XOR ucast len
          in Some h3))"

text \<open>
  An OCaml string is the list of its bytes; \<^verbatim>\<open>caml_string_length\<close> returns an
  \<^verbatim>\<open>mlsize_t\<close>.
\<close>

definition caml_string_length :: "uint8_t list \<Rightarrow> mlsize_t" where
  "caml_string_length v_str = of_nat (length v_str)"

text \<open>
  \<^verbatim>\<open>uint32_t h = Long_val(st); ... h = Ppx_fold_blob(h, len, s); return Val_long(h);\<close>
  The initialisation truncates the \<^verbatim>\<open>intnat\<close> to 32 bits, and \<^verbatim>\<open>Val_long\<close>
  zero-extends the unsigned result.
\<close>

definition Ppx_fold_string :: "value_t \<Rightarrow> uint8_t list \<Rightarrow> value_t option" where
  "Ppx_fold_string st v_str =
    (let h = (ucast (Long_val st) :: uint32_t);
         len = caml_string_length v_str;
         s = v_str
     in case Ppx_fold_blob h len s of
          None \<Rightarrow> None
        | Some h' \<Rightarrow> Some (Val_long (ucast h')))"

section \<open>The fixed-width folds\<close>

text \<open>
  Modelled from the spec: \<^verbatim>\<open>caml_hash_mix_uint32\<close>, a function of the OCaml runtime
  declared in \<^verbatim>\<open>caml/hash.h\<close> and absent from the sources.  The spec (4.1) says
  that a 32-bit integer is mixed into the accumulator with the single-word
  block-mixer step, which is the macro \<^verbatim>\<open>MIX\<close>.
\<close>

definition caml_hash_mix_uint32 :: "uint32_t \<Rightarrow> uint32_t \<Rightarrow> uint32_t" where
  "caml_hash_mix_uint32 h d = MIX h d"

text \<open>
  \<^verbatim>\<open>return Val_long(caml_hash_mix_uint32(Long_val(st), Int32_val(i)));\<close>
  \<^verbatim>\<open>Int32_val\<close> reads the 32 bits of a boxed integer, which is how the model takes
  the argument \<open>i\<close>; passing \<^verbatim>\<open>Long_val(st)\<close> as a \<^verbatim>\<open>uint32_t\<close> truncates it.
\<close>

definition Ppx_fold_int32 :: "value_t \<Rightarrow> 32 word \<Rightarrow> value_t" where
  "Ppx_fold_int32 st i = Val_long (ucast (caml_hash_mix_uint32 (ucast (Long_val st)) i))"

text \<open>
  The runtime functions \<^verbatim>\<open>caml_hash_mix_intnat\<close>, \<^verbatim>\<open>caml_hash_mix_int64\<close> and
  \<^verbatim>\<open>caml_hash_mix_double\<close> are not in the sources either; the folds that call them
  take them as their first argument.  \<^verbatim>\<open>Nativeint_val\<close>, \<^verbatim>\<open>Int64_val\<close> and
  \<^verbatim>\<open>Double_val\<close> read the content of a boxed value, which is how the model takes
  \<open>i\<close>; a double is a value of any type \<open>'d\<close>.
\<close>

definition Ppx_fold_nativeint ::
  "(uint32_t \<Rightarrow> intnat \<Rightarrow> uint32_t) \<Rightarrow> value_t \<Rightarrow> intnat \<Rightarrow> value_t" where
  "Ppx_fold_nativeint caml_hash_mix_intnat st i =
     Val_long (ucast (caml_hash_mix_intnat (ucast (Long_val st)) i))"

definition Ppx_fold_int64 ::
  "(uint32_t \<Rightarrow> 64 word \<Rightarrow> uint32_t) \<Rightarrow> value_t \<Rightarrow> 64 word \<Rightarrow> value_t" where
  "Ppx_fold_int64 caml_hash_mix_int64 st i =
     Val_long (ucast (caml_hash_mix_int64 (ucast (Long_val st)) i))"

text \<open>Here \<open>i\<close> is a tagged integer, read with \<^verbatim>\<open>Long_val\<close>.\<close>

definition Ppx_fold_int ::
  "(uint32_t \<Rightarrow> intnat \<Rightarrow> uint32_t) \<Rightarrow> value_t \<Rightarrow> value_t \<Rightarrow> value_t" where
  "Ppx_fold_int caml_hash_mix_intnat st i =
     Val_long (ucast (caml_hash_mix_intnat (ucast (Long_val st)) (Long_val i)))"

definition Ppx_fold_float ::
  "(uint32_t \<Rightarrow> 'd \<Rightarrow> uint32_t) \<Rightarrow> value_t \<Rightarrow> 'd \<Rightarrow> value_t" where
  "Ppx_fold_float caml_hash_mix_double st i =
     Val_long (ucast (caml_hash_mix_double (ucast (Long_val st)) i))"

section \<open>The single-call wrappers\<close>

text \<open>\<^verbatim>\<open>FINAL_MIX_AND_RETURN(h)\<close> writes the five assignments out again and returns.\<close>

definition FINAL_MIX_AND_RETURN :: "uint32_t \<Rightarrow> value_t" where
  "FINAL_MIX_AND_RETURN h0 =
    (let h1 = h0 XOR drop_bit 16 h0;
         h2 = h1 * 0x85ebca6b;
         h3 = h2 XOR drop_bit 13 h2;
         h4 = h3 * 0xc2b2ae35;
         h5 = h4 XOR drop_bit 16 h4
     in Val_int (ucast (h5 AND 0x3FFFFFFF)))"

section \<open>The algorithm in the words of the specification\<close>

text \<open>
  Section 4.3 of the specification, kept apart from the code above: a rotation of
  a 32-bit word, the six-line mixing step, a little-endian word read from a list of
  bytes (missing high bytes are zero), the blocks consumed while at least four
  bytes remain, and the whole mixer with its tail and its length.
\<close>

definition rotate_left_32 :: "uint32_t \<Rightarrow> nat \<Rightarrow> uint32_t" where
  "rotate_left_32 x n = word_rotl n x"

definition mix_step_spec :: "uint32_t \<Rightarrow> uint32_t \<Rightarrow> uint32_t" where
  "mix_step_spec h d =
    (let d = d * 0xcc9e2d51;
         d = rotate_left_32 d 15;
         d = d * 0x1b873593;
         h = h XOR d;
         h = rotate_left_32 h 13
     in h * 5 + 0xe6546b64)"

fun le_word :: "uint8_t list \<Rightarrow> uint32_t" where
  "le_word [] = 0"
| "le_word (b # bs) = ucast b OR push_bit 8 (le_word bs)"

fun blocks_spec :: "uint32_t \<Rightarrow> uint8_t list \<Rightarrow> uint32_t \<times> uint8_t list" where
  "blocks_spec h (b0 # b1 # b2 # b3 # rest) =
     blocks_spec (mix_step_spec h (le_word [b0, b1, b2, b3])) rest"
| "blocks_spec h bs = (h, bs)"

definition fold_blob_spec :: "uint32_t \<Rightarrow> nat \<Rightarrow> uint8_t list \<Rightarrow> uint32_t" where
  "fold_blob_spec h len s =
    (case blocks_spec h s of
       (h1, trailing) \<Rightarrow>
         (let h2 = (if len mod 4 = 1 \<or> len mod 4 = 2 \<or> len mod 4 = 3
                    then mix_step_spec h1 (le_word trailing) else h1)
          in h2 XOR of_nat (len mod 2 ^ 32)))"

text \<open>
  Section 4.2 of the specification on natural numbers, with the wrap-around of
  unsigned 32-bit arithmetic written out.
\<close>

definition finalize_spec :: "nat \<Rightarrow> nat" where
  "finalize_spec h0 =
    (let h1 = h0 XOR (h0 div 2 ^ 16);
         h2 = (h1 * 0x85ebca6b) mod 2 ^ 32;
         h3 = h2 XOR (h2 div 2 ^ 13);
         h4 = (h3 * 0xc2b2ae35) mod 2 ^ 32;
         h5 = h4 XOR (h4 div 2 ^ 16)
     in h5 AND 0x3FFFFFFF)"

text \<open>
  Modelled from the spec: \<^verbatim>\<open>caml_hash_mix_string\<close>, a function of the OCaml runtime
  declared in \<^verbatim>\<open>caml/hash.h\<close> and absent from the sources.  The spec (4.4) says that
  hashing a byte sequence directly performs the byte-sequence fold of 4.1 and 4.3
  from a zero accumulator; the comment above \<^verbatim>\<open>Ppx_fold_blob\<close> calls that function a
  version of \<^verbatim>\<open>caml_hash_mix_string\<close>.
\<close>

definition caml_hash_mix_string :: "uint32_t \<Rightarrow> uint8_t list \<Rightarrow> uint32_t" where
  "caml_hash_mix_string h v_str = fold_blob_spec h (length v_str) v_str"

text \<open>\<^verbatim>\<open>h = caml_hash_mix_string(0, string); FINAL_MIX_AND_RETURN(h)\<close>\<close>

definition Ppx_hash_string :: "uint8_t list \<Rightarrow> value_t" where
  "Ppx_hash_string string = (let h = caml_hash_mix_string 0 string in FINAL_MIX_AND_RETURN h)"

text \<open>\<^verbatim>\<open>h = caml_hash_mix_double(0, Double_val(d)); FINAL_MIX_AND_RETURN(h);\<close>\<close>

definition Ppx_hash_double :: "(uint32_t \<Rightarrow> 'd \<Rightarrow> uint32_t) \<Rightarrow> 'd \<Rightarrow> value_t" where
  "Ppx_hash_double caml_hash_mix_double d =
     (let h = caml_hash_mix_double 0 d in FINAL_MIX_AND_RETURN h)"

text \<open>The four bytes of a 32-bit word in memory order on a little-endian host.\<close>

definition le_bytes :: "uint32_t \<Rightarrow> uint8_t list" where
  "le_bytes v = [ucast v, ucast (drop_bit 8 v), ucast (drop_bit 16 v), ucast (drop_bit 24 v)]"

section \<open>Tagged integers keep a 32-bit state\<close>

lemma bit_Val_long: "bit (Val_long x) n \<longleftrightarrow> n = 0 \<or> (n < 64 \<and> bit x (n - 1))"
proof -
  have p: "bit (push_bit 1 x) n \<longleftrightarrow> 1 \<le> n \<and> n < 64 \<and> bit x (n - 1)"
    by (simp only: bit_push_bit_iff possible_bit_word) simp
  have "Val_long x = push_bit 1 x OR 1"
    unfolding Val_long_def by (simp add: or_one_eq)
  then have "bit (Val_long x) n \<longleftrightarrow> bit (push_bit 1 x) n \<or> n = 0"
    by (simp only: bit_or_iff bit_1_iff)
  with p show ?thesis by auto
qed

lemma bit_Long_val: "bit (Long_val x) n \<longleftrightarrow> bit x (if n = 63 then 63 else Suc n) \<and> n < 64"
  unfolding Long_val_def by (auto simp add: bit_signed_drop_bit_iff dest: bit_imp_le_length)

lemma Long_val_Val_long_ucast: "Long_val (Val_long (ucast (h :: uint32_t))) = ucast h"
  by (rule bit_word_eqI)
     (auto simp: bit_ucast_iff bit_Val_long bit_Long_val dest: bit_imp_le_length)

lemma ucast_ucast_32_64: "(ucast (ucast (h :: uint32_t) :: 64 word) :: uint32_t) = h"
  by (rule bit_word_eqI) (auto simp: bit_ucast_iff dest: bit_imp_le_length)

lemma Int_val_Val_long: "Int_val (Val_long (ucast (h :: uint32_t))) = h"
  by (simp only: Int_val_def Long_val_Val_long_ucast ucast_ucast_32_64)

lemma Long_val_Val_long_scast: "Long_val (Val_long (scast (v :: 63 word))) = scast v"
  by (rule bit_word_eqI)
     (auto simp: bit_signed_iff bit_Val_long bit_Long_val dest: bit_imp_le_length)

lemma Long_val_Val_long_0: "Long_val (Val_long 0) = 0"
  using Long_val_Val_long_ucast [of 0] by simp

lemma sint_ucast32: "sint (ucast (w :: uint32_t) :: 64 word) = uint w"
proof -
  have "uint w < 2 ^ 32" using uint_lt2p [of w] by simp
  then have b: "uint w < 2 ^ 63" by simp
  have u: "uint (ucast w :: 64 word) = uint w"
    by (rule uint_up_ucast) (simp add: is_up)
  have "- (2 ^ 63) \<le> uint w"
    by (rule order_trans [of _ 0]) simp_all
  then have "signed_take_bit 63 (uint w) = uint w"
    using b by (rule signed_take_bit_int_eq_self)
  then show ?thesis
    by (simp add: sint_uint u)
qed

lemma unat_ucast32: "unat (ucast (w :: uint32_t) :: 64 word) = unat w"
proof -
  have "unat w < 2 ^ 32" using unsigned_less [of w] by simp
  then have "unat w < 2 ^ 64" by simp
  then have "take_bit 64 (unat w) = unat w" by (rule take_bit_nat_eq_self)
  then show ?thesis by (simp add: unsigned_ucast_eq)
qed

section \<open>The finalizer\<close>

lemma FINAL_MIX_AND_RETURN_eq:
  "FINAL_MIX_AND_RETURN h = Val_int (ucast (FINAL_MIX h AND 0x3FFFFFFF))"
  by (simp add: FINAL_MIX_AND_RETURN_def FINAL_MIX_def Let_def)

lemma unat_xor_shift:
  "unat ((x :: uint32_t) XOR drop_bit n x) = unat x XOR (unat x div 2 ^ n)"
proof -
  have "unat (drop_bit n x) = drop_bit n (unat x)" by (rule unat_drop_bit_eq)
  also have "\<dots> = unat x div 2 ^ n" by (rule drop_bit_eq_div)
  finally show ?thesis by (simp only: unsigned_xor_eq)
qed

lemma unat_mult32:
  "unat ((x :: uint32_t) * numeral c) = (unat x * unat (numeral c :: uint32_t)) mod 2 ^ 32"
  by (simp only: unat_word_ariths) simp

lemma unat_FINAL_MIX: "unat (FINAL_MIX h AND 0x3FFFFFFF) = finalize_spec (unat h)"
  unfolding FINAL_MIX_def finalize_spec_def Let_def
  by (simp add: unsigned_and_eq unat_xor_shift unat_mult32)

lemma mask30: "(w :: uint32_t) AND 0x3FFFFFFF = take_bit 30 w"
  by (simp add: take_bit_eq_mask mask_eq_exp_minus_1)

lemma unat_mask30: "unat ((w :: uint32_t) AND 0x3FFFFFFF) < 2 ^ 30"
  by (simp only: mask30 unsigned_take_bit_eq take_bit_nat_less_exp)

lemma bit_mask30: "bit ((w :: uint32_t) AND 0x3FFFFFFF) n \<longleftrightarrow> bit w n \<and> n < 30"
  by (auto simp add: mask30 bit_take_bit_iff)

text \<open>
  C2.  For every accumulator, \<^verbatim>\<open>Ppx_get_hash_value\<close> returns the tagged integer of
  the number that the avalanche sequence of the specification computes in
  unsigned 32-bit wrapping arithmetic from the low 32 bits of the accumulator,
  masked to its low 30 bits: \<open>finalize_spec\<close> runs the five steps once, with
  \<open>mod 2 ^ 32\<close> after each multiplication, and ends with \<open>AND 0x3FFFFFFF\<close>.  The
  second equation reads the result back for a state \<open>h\<close> stored as a tagged integer.
\<close>

theorem Ppx_get_hash_value_refines_spec:
  "Ppx_get_hash_value st = Val_int (of_nat (finalize_spec (unat (Int_val st))))
   \<and> unat (Long_val (Ppx_get_hash_value (Val_long (ucast (h :: uint32_t))))) = finalize_spec (unat h)"
proof -
  have a: "(ucast (w :: uint32_t) :: 64 word) = of_nat (unat w)" for w
    by simp
  have g: "Ppx_get_hash_value st = Val_int (of_nat (finalize_spec (unat (Int_val st))))" for st
    unfolding Ppx_get_hash_value_def Let_def
    by (simp only: a unat_FINAL_MIX)
  have "Long_val (Ppx_get_hash_value (Val_long (ucast h)))
        = ucast (FINAL_MIX h AND 0x3FFFFFFF)"
    unfolding Ppx_get_hash_value_def Let_def Val_int_def
    by (simp only: Int_val_Val_long Long_val_Val_long_ucast)
  then have "unat (Long_val (Ppx_get_hash_value (Val_long (ucast h))))
        = unat (FINAL_MIX h AND 0x3FFFFFFF)"
    by (simp only: unat_ucast32)
  with g show ?thesis
    by (simp only: unat_FINAL_MIX)
qed

text \<open>
  C4.  For every accumulator, the integer that \<^verbatim>\<open>Ppx_get_hash_value\<close> returns, read
  back with \<^verbatim>\<open>Long_val\<close> as a signed number, lies in [0, 2^30 - 1], and bits 30
  and 31 of its 32-bit word are zero.  Every tagged state is covered, the states
  \<open>Val_long (ucast h)\<close> of a 32-bit \<open>h\<close> among them.
\<close>

theorem Ppx_get_hash_value_bounded:
  "0 \<le> sint (Long_val (Ppx_get_hash_value st))
   \<and> sint (Long_val (Ppx_get_hash_value st)) < 2 ^ 30
   \<and> \<not> bit (Int_val (Ppx_get_hash_value st)) 30
   \<and> \<not> bit (Int_val (Ppx_get_hash_value st)) 31"
proof -
  define w where "w = FINAL_MIX (Int_val st) AND 0x3FFFFFFF"
  have r: "Ppx_get_hash_value st = Val_long (ucast w)"
    by (simp add: Ppx_get_hash_value_def Val_int_def w_def)
  have s: "sint (Long_val (Ppx_get_hash_value st)) = uint w"
    by (simp only: r Long_val_Val_long_ucast sint_ucast32)
  have "unat w < 2 ^ 30"
    unfolding w_def by (rule unat_mask30)
  then have "int (unat w) < 2 ^ 30"
    by (metis of_nat_less_iff of_nat_numeral of_nat_power)
  then have u: "uint w < 2 ^ 30"
    by simp
  have i: "Int_val (Ppx_get_hash_value st) = w"
    by (simp only: r Int_val_Val_long)
  have "\<not> bit w 30" "\<not> bit w 31"
    unfolding w_def by (simp_all only: bit_mask30) simp_all
  with s u i show ?thesis
    by simp
qed

section \<open>The mixing step is a bijection\<close>

lemma bit32_less: "bit (x :: uint32_t) j \<Longrightarrow> j < 32"
  by (drule bit_imp_le_length) simp

lemma ROTL32_eq_word_rotl: "n \<in> {13, 15} \<Longrightarrow> ROTL32 x n = word_rotl n x"
proof (rule bit_word_eqI)
  fix k assume "k < LENGTH(32)" and nn: "n \<in> {13, 15}"
  then have k: "k < 32" by simp
  have m: "(17 + k) mod 32 = (if k < 15 then 17 + k else k - 15)"
     "(19 + k) mod 32 = (if k < 13 then 19 + k else k - 13)" using k by (auto simp: mod_if)
  show "bit (ROTL32 x n) k = bit (word_rotl n x) k"
    using k nn bit32_less [of x "19 + k"] bit32_less [of x "17 + k"]
    by (auto simp: ROTL32_def bit_simps m split: if_splits)
qed

lemma ROTL32_inj: "n \<in> {13, 15} \<Longrightarrow> ROTL32 x n = ROTL32 y n \<longleftrightarrow> x = y"
proof
  assume n: "n \<in> {13, 15}" and e: "ROTL32 x n = ROTL32 y n"
  then have "word_rotr n (word_rotl n x) = word_rotr n (word_rotl n y)"
    by (simp only: ROTL32_eq_word_rotl)
  then show "x = y" by (simp only: word_rot_lr)
qed simp

lemma ROTL32_13_inj: "ROTL32 x 13 = ROTL32 y 13 \<longleftrightarrow> x = y"
  by (rule ROTL32_inj) simp

lemma ROTL32_15_inj: "ROTL32 x 15 = ROTL32 y 15 \<longleftrightarrow> x = y"
  by (rule ROTL32_inj) simp

lemma mult_unit_inj:
  fixes c :: uint32_t
  assumes "c * c' = 1"
  shows "x * c = y * c \<longleftrightarrow> x = y"
proof
  assume "x * c = y * c"
  then have "x * c * c' = y * c * c'" by (rule arg_cong)
  then have "x * (c * c') = y * (c * c')" by (simp only: mult.assoc)
  then show "x = y" by (simp only: assms mult_1_right)
qed simp

lemma mult_cc9e2d51_inj: "(x :: uint32_t) * 0xcc9e2d51 = y * 0xcc9e2d51 \<longleftrightarrow> x = y"
  by (rule mult_unit_inj [where c' = "0xdee13bb1"]) simp

lemma mult_1b873593_inj: "(x :: uint32_t) * 0x1b873593 = y * 0x1b873593 \<longleftrightarrow> x = y"
  by (rule mult_unit_inj [where c' = "0x56ed309b"]) simp

lemma mult_5_inj: "(x :: uint32_t) * 5 = y * 5 \<longleftrightarrow> x = y"
  by (rule mult_unit_inj [where c' = "0xcccccccd"]) simp

lemma xor_left_inj: "(h :: uint32_t) XOR a = h XOR b \<longleftrightarrow> a = b"
proof
  assume "h XOR a = h XOR b"
  then have "h XOR (h XOR a) = h XOR (h XOR b)" by (rule arg_cong)
  then show "a = b" by (simp add: xor.assoc [symmetric])
qed simp

lemma xor_right_inj: "(a :: uint32_t) XOR d = b XOR d \<longleftrightarrow> a = b"
  by (simp only: xor.commute [of _ d] xor_left_inj)

lemma MIX_inj_word: "MIX h d1 = MIX h d2 \<longleftrightarrow> d1 = d2"
  unfolding MIX_def Let_def
  by (simp only: add_right_cancel mult_5_inj ROTL32_13_inj xor_left_inj
        mult_1b873593_inj ROTL32_15_inj mult_cc9e2d51_inj)

lemma MIX_inj_state: "MIX h1 d = MIX h2 d \<longleftrightarrow> h1 = h2"
  unfolding MIX_def Let_def
  by (simp only: add_right_cancel mult_5_inj ROTL32_13_inj xor_right_inj)

lemma Val_long_ucast_inj:
  "Val_long (ucast (a :: uint32_t)) = Val_long (ucast (b :: uint32_t)) \<longleftrightarrow> a = b"
  by (metis Int_val_Val_long)

text \<open>
  C10.  For a fixed accumulator the mixing step \<^verbatim>\<open>MIX\<close> is injective, and so
  bijective, in the mixed word, and for a fixed word it is injective and bijective
  in the accumulator.  Hence two folds of 32-bit values by \<^verbatim>\<open>Ppx_fold_int32\<close> from
  one state give the same state only for the same value.
\<close>

theorem MIX_injective:
  "(MIX h d1 = MIX h d2 \<longleftrightarrow> d1 = d2)
   \<and> (MIX h1 d = MIX h2 d \<longleftrightarrow> h1 = h2)
   \<and> bij (MIX h) \<and> bij (\<lambda>h. MIX h d)
   \<and> (Ppx_fold_int32 st v1 = Ppx_fold_int32 st v2 \<longleftrightarrow> v1 = v2)"
proof -
  have "inj (MIX h)"
    by (rule injI) (simp only: MIX_inj_word)
  then have b1: "bij (MIX h)"
    by (simp add: bij_def finite_UNIV_inj_surj)
  have "inj (\<lambda>h. MIX h d)"
    by (rule injI) (simp only: MIX_inj_state)
  then have b2: "bij (\<lambda>h. MIX h d)"
    by (simp add: bij_def finite_UNIV_inj_surj)
  have f: "Ppx_fold_int32 st v1 = Ppx_fold_int32 st v2 \<longleftrightarrow> v1 = v2"
    unfolding Ppx_fold_int32_def caml_hash_mix_uint32_def
    by (simp only: Val_long_ucast_inj MIX_inj_word)
  from b1 b2 f show ?thesis
    by (simp only: MIX_inj_word MIX_inj_state simp_thms)
qed

theorem MIX_injective_witness:
  "MIX 0 1 \<noteq> MIX 0 2 \<and> MIX 1 7 \<noteq> MIX 2 7
   \<and> Ppx_fold_int32 (Val_long 0) 1 \<noteq> Ppx_fold_int32 (Val_long 0) 2"
  using MIX_injective [of 0 1 2 1 7 2 "Val_long 0" 1 2] by simp

section \<open>The empty byte sequence\<close>

text \<open>
  C6.  Folding a zero-length byte sequence returns the accumulator unchanged: the
  block loop stops at index 0 with the state \<open>h\<close>, the tail switch takes its default
  case, and the exclusive-or with the length 0 changes nothing.
\<close>

theorem Ppx_fold_blob_empty:
  "blob_loop [] 0 0 h = Some (0, h) \<and> blob_tail [] 0 0 h = h \<and> Ppx_fold_blob h 0 [] = Some h"
proof -
  have l: "blob_loop [] 0 0 h = Some (0, h)"
    by (subst blob_loop.simps) simp
  have t: "blob_tail [] 0 0 h = h"
    by (simp add: blob_tail_def)
  from l t show ?thesis
    by (simp add: Ppx_fold_blob_def)
qed

section \<open>The block and byte mixer against the specification\<close>

lemma MIX_eq_mix_step_spec: "MIX h d = mix_step_spec h d"
  unfolding MIX_def mix_step_spec_def rotate_left_32_def Let_def
  by (simp only: ROTL32_eq_word_rotl insertI1 insertI2)

lemma le_word_4:
  "le_word [a, b, c, d] =
     ucast a OR push_bit 8 (ucast b) OR push_bit 16 (ucast c) OR push_bit 24 (ucast d)"
proof -
  have "le_word [a, b, c, d] =
     ucast a OR push_bit 8 (ucast b OR push_bit 8 (ucast c OR push_bit 8 (ucast d OR push_bit 8 0)))"
    by (simp only: le_word.simps)
  also have "\<dots> = ucast a OR (push_bit 8 (ucast b) OR (push_bit (8 + 8) (ucast c)
       OR push_bit (8 + (8 + 8)) (ucast d)))"
    by (simp only: push_bit_or push_bit_push_bit push_bit_of_0 or.right_neutral)
  finally show ?thesis
    by (simp add: or.assoc)
qed

lemma unat_plus_small:
  fixes i :: mlsize_t
  assumes "unat i + k < 2 ^ 64"
  shows "unat (i + of_nat k) = unat i + k"
proof -
  have k: "unat (of_nat k :: mlsize_t) = k"
    using assms by (simp add: unat_of_nat)
  then have "unat i + unat (of_nat k :: mlsize_t) < 2 ^ LENGTH(64)"
    using assms by simp
  then have "unat (i + of_nat k) = unat i + unat (of_nat k :: mlsize_t)"
    by (simp only: unat_add_lem)
  with k show ?thesis by simp
qed

lemma drop_four:
  assumes "k + 4 \<le> length s"
  shows "drop k s = s ! k # s ! (k + 1) # s ! (k + 2) # s ! (k + 3) # drop (k + 4) s"
proof -
  have "drop k s = s ! k # drop (Suc k) s"
    using assms by (simp add: Cons_nth_drop_Suc)
  also have "drop (Suc k) s = s ! (k + 1) # drop (Suc (Suc k)) s"
    using assms by (simp add: Cons_nth_drop_Suc)
  also have "drop (Suc (Suc k)) s = s ! (k + 2) # drop (Suc (Suc (Suc k))) s"
    using assms by (simp add: Cons_nth_drop_Suc)
  also have "drop (Suc (Suc (Suc k))) s = s ! (k + 3) # drop (k + 4) s"
    using assms Cons_nth_drop_Suc [of "k + 3" s] by (simp add: numeral_eq_Suc)
  finally show ?thesis .
qed

lemma blocks_spec_short: "length bs < 4 \<Longrightarrow> blocks_spec h bs = (h, bs)"
  by (induction h bs rule: blocks_spec.induct) simp_all

lemma block_word_le_word:
  assumes "unat i + 4 < 2 ^ 64"
  shows "block_word s i = le_word [s ! unat i, s ! (unat i + 1), s ! (unat i + 2), s ! (unat i + 3)]"
proof -
  have "unat (i + 1) = unat i + 1" "unat (i + 2) = unat i + 2" "unat (i + 3) = unat i + 3"
    using assms unat_plus_small [of i 1] unat_plus_small [of i 2] unat_plus_small [of i 3]
    by simp_all
  then show ?thesis
    by (simp only: block_word_def le_word_4)
qed

lemma blob_loop_refines:
  assumes len: "length s = unat len" and small: "unat len < 2 ^ 64 - 4"
  shows "unat i \<le> unat len \<Longrightarrow>
     \<exists>j. blob_loop s len i h = Some (j, fst (blocks_spec h (drop (unat i) s)))
       \<and> snd (blocks_spec h (drop (unat i) s)) = drop (unat j) s
       \<and> unat j \<le> unat len \<and> unat len - unat j < 4 \<and> unat j mod 4 = unat i mod 4"
proof (induction "unat len - unat i" arbitrary: i h rule: less_induct)
  case less
  have b: "unat i + 4 < 2 ^ 64"
    using less.prems small by simp
  have i4: "unat (i + 4) = unat i + 4"
    using unat_plus_small [of i 4] b by simp
  show ?case
  proof (cases "i + 4 \<le> len")
    case True
    then have le: "unat i + 4 \<le> unat len"
      by (simp add: word_le_nat_alt i4)
    let ?w = "le_word [s ! unat i, s ! (unat i + 1), s ! (unat i + 2), s ! (unat i + 3)]"
    have d: "drop (unat i) s =
        s ! unat i # s ! (unat i + 1) # s ! (unat i + 2) # s ! (unat i + 3) # drop (unat (i + 4)) s"
      using drop_four [of "unat i" s] le len by (simp only: i4)
    have bw: "block_word s i = ?w"
      using b by (rule block_word_le_word)
    have step: "blob_loop s len i h = blob_loop s len (i + 4) (MIX h ?w)"
      using True by (subst blob_loop.simps) (simp only: bw if_True)
    have spec: "blocks_spec h (drop (unat i) s) =
        blocks_spec (MIX h ?w) (drop (unat (i + 4)) s)"
      by (simp only: d blocks_spec.simps MIX_eq_mix_step_spec)
    have "unat len - unat (i + 4) < unat len - unat i" "unat (i + 4) \<le> unat len"
      using le i4 by simp_all
    then obtain j where
      "blob_loop s len (i + 4) (MIX h ?w)
         = Some (j, fst (blocks_spec (MIX h ?w) (drop (unat (i + 4)) s)))"
      "snd (blocks_spec (MIX h ?w) (drop (unat (i + 4)) s)) = drop (unat j) s"
      "unat j \<le> unat len" "unat len - unat j < 4" "unat j mod 4 = unat (i + 4) mod 4"
      using less.hyps [of "i + 4" "MIX h ?w"] by blast
    then show ?thesis
      by (simp add: step spec i4)
  next
    case False
    then have "unat len < unat i + 4"
      by (simp add: word_le_nat_alt i4)
    then have "length (drop (unat i) s) < 4"
      using len less.prems by simp
    then have "blocks_spec h (drop (unat i) s) = (h, drop (unat i) s)"
      by (rule blocks_spec_short)
    moreover have "blob_loop s len i h = Some (i, h)"
      using False by (subst blob_loop.simps) simp
    ultimately show ?thesis
      using less.prems \<open>unat len < unat i + 4\<close> by auto
  qed
qed

lemma blob_loop_returns:
  assumes small: "unat len < 2 ^ 64 - 4"
  shows "unat i \<le> unat len \<Longrightarrow> \<exists>y. blob_loop s len i h = Some y"
proof (induction "unat len - unat i" arbitrary: i h rule: less_induct)
  case less
  have i4: "unat (i + 4) = unat i + 4"
    using unat_plus_small [of i 4] less.prems small by simp
  show ?case
  proof (cases "i + 4 \<le> len")
    case True
    then have le: "unat i + 4 \<le> unat len"
      by (simp add: word_le_nat_alt i4)
    have step: "blob_loop s len i h = blob_loop s len (i + 4) (MIX h (block_word s i))"
      using True by (subst blob_loop.simps) simp
    have "unat len - unat (i + 4) < unat len - unat i" "unat (i + 4) \<le> unat len"
      using le i4 by simp_all
    then show ?thesis
      using less.hyps [of "i + 4" "MIX h (block_word s i)"] by (simp only: step)
  next
    case False
    then have "blob_loop s len i h = Some (i, h)"
      by (subst blob_loop.simps) simp
    then show ?thesis by simp
  qed
qed

lemma unat_and_3: "unat ((len :: mlsize_t) AND 3) = unat len mod 4"
proof -
  have "len AND 3 = take_bit 2 len"
    by (simp add: take_bit_eq_mask mask_eq_exp_minus_1)
  moreover have "unat (take_bit 2 len) = take_bit 2 (unat len)"
    by (rule unsigned_take_bit_eq)
  moreover have "take_bit 2 (unat len) = unat len mod 4"
    by (simp add: take_bit_eq_mod)
  ultimately show ?thesis
    by (simp only:)
qed

lemma and_3_eq_iff:
  "(len :: mlsize_t) AND 3 = 3 \<longleftrightarrow> unat len mod 4 = 3"
  "(len :: mlsize_t) AND 3 = 2 \<longleftrightarrow> unat len mod 4 = 2"
  "(len :: mlsize_t) AND 3 = 1 \<longleftrightarrow> unat len mod 4 = 1"
  by (simp_all add: word_unat_eq_iff unat_and_3)

lemma drop_last_bytes:
  "length s = k + 1 \<Longrightarrow> drop k s = [s ! k]"
  "length s = k + 2 \<Longrightarrow> drop k s = [s ! k, s ! (k + 1)]"
  "length s = k + 3 \<Longrightarrow> drop k s = [s ! k, s ! (k + 1), s ! (k + 2)]"
proof -
  show "length s = k + 1 \<Longrightarrow> drop k s = [s ! k]"
    using Cons_nth_drop_Suc [of k s] by simp
  show "length s = k + 2 \<Longrightarrow> drop k s = [s ! k, s ! (k + 1)]"
    using Cons_nth_drop_Suc [of k s] Cons_nth_drop_Suc [of "Suc k" s] by simp
  show "length s = k + 3 \<Longrightarrow> drop k s = [s ! k, s ! (k + 1), s ! (k + 2)]"
    using Cons_nth_drop_Suc [of k s] Cons_nth_drop_Suc [of "Suc k" s]
      Cons_nth_drop_Suc [of "Suc (Suc k)" s]
    by (simp add: numeral_eq_Suc)
qed

lemma le_word_short:
  "le_word [a] = ucast a"
  "le_word [a, b] = push_bit 8 (ucast b) OR ucast a"
  "le_word [a, b, c] = push_bit 16 (ucast c) OR push_bit 8 (ucast b) OR ucast a"
proof -
  show "le_word [a] = ucast a"
    by (simp only: le_word.simps push_bit_of_0 or.right_neutral)
  have "le_word [a, b] = ucast a OR push_bit 8 (ucast b)"
    by (simp only: le_word.simps push_bit_of_0 or.right_neutral)
  then show "le_word [a, b] = push_bit 8 (ucast b) OR ucast a"
    by (simp only: or.commute)
  have "le_word [a, b, c] = ucast a OR (push_bit 8 (ucast b) OR push_bit (8 + 8) (ucast c))"
    by (simp only: le_word.simps push_bit_or push_bit_push_bit push_bit_of_0 or.right_neutral)
  then show "le_word [a, b, c] = push_bit 16 (ucast c) OR push_bit 8 (ucast b) OR ucast a"
    by (simp add: ac_simps)
qed

lemma blob_tail_refines:
  assumes len: "length s = unat len" and small: "unat len < 2 ^ 64 - 4"
    and j: "unat j \<le> unat len" "unat len - unat j < 4" "unat j mod 4 = 0"
  shows "blob_tail s len j h =
     (if unat len mod 4 = 1 \<or> unat len mod 4 = 2 \<or> unat len mod 4 = 3
      then mix_step_spec h (le_word (drop (unat j) s)) else h)"
proof -
  have b: "unat j + 1 < 2 ^ 64" "unat j + 2 < 2 ^ 64"
    using j(1) small by simp_all
  have u: "unat (j + 1) = unat j + 1" "unat (j + 2) = unat j + 2"
    using unat_plus_small [of j 1] unat_plus_small [of j 2] b by simp_all
  define d where "d = unat len - unat j"
  have ld: "unat len = unat j + d"
    using j(1) by (simp add: d_def)
  obtain k where k: "unat j = 4 * k"
    using j(3) by (auto simp: mod_eq_0_iff_dvd)
  have d4: "d < 4"
    using j(2) by (simp add: d_def)
  have "unat len mod 4 = (4 * k + d) mod 4"
    by (simp only: ld k)
  also have "\<dots> = d"
    using d4 by simp
  finally have m: "unat len mod 4 = d" .
  have ls: "length s = unat j + d"
    by (simp only: len ld)
  have "d = 0 \<or> d = 1 \<or> d = 2 \<or> d = 3"
    using d4 by arith
  then consider "d = 0" | "d = 1" | "d = 2" | "d = 3"
    by blast
  then show ?thesis
  proof cases
    case 1
    then show ?thesis
      by (simp add: blob_tail_def and_3_eq_iff m)
  next
    case 2
    then have "drop (unat j) s = [s ! unat j]"
      using ls drop_last_bytes(1) [of s "unat j"] by simp
    then show ?thesis
      using 2 by (simp add: blob_tail_def and_3_eq_iff m le_word_short MIX_eq_mix_step_spec)
  next
    case 3
    then have "drop (unat j) s = [s ! unat j, s ! (unat j + 1)]"
      using ls drop_last_bytes(2) [of s "unat j"] by simp
    then show ?thesis
      using 3 by (simp add: blob_tail_def and_3_eq_iff m u MIX_eq_mix_step_spec or.commute)
  next
    case 4
    then have "drop (unat j) s = [s ! unat j, s ! (unat j + 1), s ! (unat j + 2)]"
      using ls drop_last_bytes(3) [of s "unat j"] by simp
    then show ?thesis
      using 4 by (simp add: blob_tail_def and_3_eq_iff m u MIX_eq_mix_step_spec
            or.commute or.left_commute)
  qed
qed

lemma ucast_len_low32: "(ucast (len :: mlsize_t) :: uint32_t) = of_nat (unat len mod 2 ^ 32)"
proof -
  have "unat (of_nat (unat len mod 2 ^ 32) :: uint32_t) = unat len mod 2 ^ 32"
    by (simp add: unat_of_nat)
  moreover have "unat (ucast len :: uint32_t) = unat len mod 2 ^ 32"
    by (simp add: unsigned_ucast_eq take_bit_eq_mod)
  ultimately show ?thesis
    by (simp only: word_unat_eq_iff)
qed

lemma blob_loop_tail_refines:
  assumes len: "length s = unat len" and small: "unat len < 2 ^ 64 - 4"
  shows "\<exists>j. blob_loop s len 0 h = Some (j, fst (blocks_spec h s))
     \<and> blob_tail s len j (fst (blocks_spec h s)) =
        (if unat len mod 4 = 1 \<or> unat len mod 4 = 2 \<or> unat len mod 4 = 3
         then mix_step_spec (fst (blocks_spec h s)) (le_word (snd (blocks_spec h s)))
         else fst (blocks_spec h s))"
proof -
  obtain j where j: "blob_loop s len 0 h = Some (j, fst (blocks_spec h s))"
      "snd (blocks_spec h s) = drop (unat j) s"
      "unat j \<le> unat len" "unat len - unat j < 4" "unat j mod 4 = 0"
    using blob_loop_refines [OF len small, of 0 h] by auto
  have "blob_tail s len j (fst (blocks_spec h s)) =
     (if unat len mod 4 = 1 \<or> unat len mod 4 = 2 \<or> unat len mod 4 = 3
      then mix_step_spec (fst (blocks_spec h s)) (le_word (snd (blocks_spec h s)))
      else fst (blocks_spec h s))"
    using blob_tail_refines [OF len small j(3,4,5)] by (simp only: j(2))
  with j(1) show ?thesis
    by blast
qed

text \<open>
  C1.  For every state \<open>h\<close>, every length \<open>len\<close> and every byte sequence \<open>s\<close> of
  exactly \<open>len\<close> bytes, \<^verbatim>\<open>Ppx_fold_blob\<close> returns the value that the specification
  describes: \<open>fold_blob_spec\<close> consumes 4-byte little-endian words through the
  six-line mixing step while at least four bytes remain, mixes the trailing bytes
  as one partial word exactly when \<open>len mod 4\<close> is 1, 2 or 3, and xors the low 32
  bits of \<open>len\<close> into the state.  The bound on \<open>len\<close> holds of every buffer that fits
  a 64-bit address space; it keeps \<open>i + 4\<close> in the loop test from wrapping around.
\<close>

theorem Ppx_fold_blob_refines_spec:
  assumes "length s = unat len" and "unat len < 2 ^ 64 - 4"
  shows "Ppx_fold_blob h len s = Some (fold_blob_spec h (unat len) s)"
proof -
  obtain j where j: "blob_loop s len 0 h = Some (j, fst (blocks_spec h s))"
    and t: "blob_tail s len j (fst (blocks_spec h s)) =
        (if unat len mod 4 = 1 \<or> unat len mod 4 = 2 \<or> unat len mod 4 = 3
         then mix_step_spec (fst (blocks_spec h s)) (le_word (snd (blocks_spec h s)))
         else fst (blocks_spec h s))"
    using blob_loop_tail_refines [OF assms, of h] by blast
  show ?thesis
    unfolding Ppx_fold_blob_def fold_blob_spec_def
    by (simp only: j t ucast_len_low32 option.case prod.case Let_def case_prod_beta
          fst_conv snd_conv)
qed

theorem Ppx_fold_blob_refines_spec_witness:
  "length [1, 2, 3, 4, 5, 6, 7 :: uint8_t] = unat (7 :: mlsize_t)
   \<and> unat (7 :: mlsize_t) < 2 ^ 64 - 4
   \<and> Ppx_fold_blob 7 7 [1, 2, 3, 4, 5, 6, 7] = Some 3969171575
   \<and> fold_blob_spec 7 7 [1, 2, 3, 4, 5, 6, 7] = 3969171575"
  using Ppx_fold_blob_refines_spec [of "[1, 2, 3, 4, 5, 6, 7]" 7 7]
  by (simp add: fold_blob_spec_def MIX_eq_mix_step_spec [symmetric] MIX_def ROTL32_def)

text \<open>
  C9.  The loop of \<^verbatim>\<open>Ppx_fold_blob\<close> is the only place of the file where control
  can fail to return; every other operation is straight-line code, a total
  function of the model, and no operation has an error result.  For every length
  a buffer can have (zero included) and every content, \<^verbatim>\<open>Ppx_fold_blob\<close> returns a
  state, and so does \<^verbatim>\<open>Ppx_fold_string\<close> on a string of that length.  The content
  plays no part in it.
\<close>

theorem Ppx_fold_blob_terminates:
  assumes "unat len < 2 ^ 64 - 4"
  shows "(\<exists>h'. Ppx_fold_blob h len s = Some h')
    \<and> (length v_str = unat len \<longrightarrow> (\<exists>st'. Ppx_fold_string st v_str = Some st'))"
proof -
  have r: "\<exists>h'. Ppx_fold_blob h len s = Some h'" for h s
  proof -
    obtain y where "blob_loop s len 0 h = Some y"
      using blob_loop_returns [OF assms, of 0 s h] by auto
    then show ?thesis
      by (cases y) (simp add: Ppx_fold_blob_def)
  qed
  have "\<exists>st'. Ppx_fold_string st v_str = Some st'" if "length v_str = unat len"
  proof -
    have "caml_string_length v_str = len"
      using that by (simp add: caml_string_length_def)
    moreover obtain h' where "Ppx_fold_blob (ucast (Long_val st)) len v_str = Some h'"
      using r by blast
    ultimately show ?thesis
      by (simp add: Ppx_fold_string_def)
  qed
  with r show ?thesis
    by blast
qed

theorem Ppx_fold_blob_terminates_witness:
  "unat (5 :: mlsize_t) < 2 ^ 64 - 4
   \<and> (\<exists>h'. Ppx_fold_blob 0 5 [1, 2, 3, 4, 5] = Some h')
   \<and> length [1, 2, 3, 4, 5 :: uint8_t] = unat (5 :: mlsize_t)
   \<and> (\<exists>st'. Ppx_fold_string (Val_long 0) [1, 2, 3, 4, 5] = Some st')"
  using Ppx_fold_blob_terminates [of 5 0 "[1, 2, 3, 4, 5]" "[1, 2, 3, 4, 5]" "Val_long 0"]
  by simp

section \<open>Lengths that no buffer has\<close>

text \<open>
  The bound \<open>unat len < 2 ^ 64 - 4\<close> of the theorems above is exact in the model,
  where a list may be longer than any memory: from \<open>2 ^ 64 - 4\<close> on, the sum
  \<open>i + 4\<close> wraps around before it exceeds \<open>len\<close>, the loop test holds at every
  multiple of four, and the loop does not return.  A buffer of that many bytes
  would leave fewer than four bytes of a 64-bit address space to everything else,
  so no call passes such a length together with a buffer of that length.
\<close>

lemma wrapped_index_le:
  fixes i len :: mlsize_t
  assumes big: "2 ^ 64 - 4 \<le> unat len" and m: "unat i mod 4 = 0"
  shows "i + 4 \<le> len \<and> unat (i + 4) mod 4 = 0"
proof -
  obtain k where k: "unat i = 4 * k"
    using m by (auto simp: mod_eq_0_iff_dvd)
  have i: "unat i < 2 ^ 64"
    using unsigned_less [of i] by simp
  have u: "unat (i + 4) = (4 * k + 4) mod 2 ^ 64"
    by (simp add: unat_word_ariths k)
  show ?thesis
  proof (cases "4 * k + 4 < 2 ^ 64")
    case True
    then have "unat (i + 4) = 4 * (k + 1)"
      using u by simp
    moreover have "4 * (k + 1) \<le> 2 ^ 64 - 4"
      using True by simp
    ultimately show ?thesis
      using big by (simp add: word_le_nat_alt)
  next
    case False
    then have "4 * k + 4 = 2 ^ 64"
      using i k by simp
    then have "unat (i + 4) = 0"
      using u by simp
    then show ?thesis
      by (simp add: word_le_nat_alt)
  qed
qed

lemma blob_loop_wraps:
  assumes "blob_loop s len i h = Some y"
  shows "unat len < 2 ^ 64 - 4 \<or> unat i mod 4 \<noteq> 0"
proof (rule blob_loop.raw_induct
    [where P = "\<lambda>s len i h y. unat len < 2 ^ 64 - 4 \<or> unat i mod 4 \<noteq> 0"])
  show "blob_loop s len i h = Some y"
    by (rule assms)
next
  fix f :: "uint8_t list \<Rightarrow> mlsize_t \<Rightarrow> mlsize_t \<Rightarrow> uint32_t \<Rightarrow> (mlsize_t \<times> uint32_t) option"
  fix s len i h y
  assume ih: "\<And>s len i h y. f s len i h = Some y \<Longrightarrow>
      unat len < 2 ^ 64 - 4 \<or> unat i mod 4 \<noteq> 0"
    and eq: "(if i + 4 \<le> len then f s len (i + 4) (MIX h (block_word s i))
      else Some (i, h)) = Some y"
  show "unat len < 2 ^ 64 - 4 \<or> unat i mod 4 \<noteq> 0"
  proof (rule ccontr)
    assume "\<not> (unat len < 2 ^ 64 - 4 \<or> unat i mod 4 \<noteq> 0)"
    then have a: "2 ^ 64 - 4 \<le> unat len" "unat i mod 4 = 0"
      by simp_all
    then have w: "i + 4 \<le> len" "unat (i + 4) mod 4 = 0"
      using wrapped_index_le [of len i] by simp_all
    with eq have "f s len (i + 4) (MIX h (block_word s i)) = Some y"
      by simp
    from ih [OF this] a w show False
      by simp
  qed
qed

lemma Ppx_fold_blob_no_result:
  assumes "2 ^ 64 - 4 \<le> unat len"
  shows "Ppx_fold_blob h len s = None"
proof -
  have "blob_loop s len 0 h \<noteq> Some y" for y
    using blob_loop_wraps [of s len 0 h y] assms by auto
  then have "blob_loop s len 0 h = None"
    by (cases "blob_loop s len 0 h") auto
  then show ?thesis
    by (simp add: Ppx_fold_blob_def)
qed

section \<open>The single-call wrappers against fold and finalize\<close>

lemma unat_caml_string_length:
  "length v_str < 2 ^ 64 - 4 \<Longrightarrow> unat (caml_string_length v_str) = length v_str"
  by (simp add: caml_string_length_def unat_of_nat)

lemma Ppx_fold_string_eq_spec:
  assumes "length v_str < 2 ^ 64 - 4"
  shows "Ppx_fold_string st v_str =
     Some (Val_long (ucast (fold_blob_spec (ucast (Long_val st)) (length v_str) v_str)))"
proof -
  let ?len = "caml_string_length v_str"
  have u: "unat ?len = length v_str"
    using assms by (rule unat_caml_string_length)
  then have l: "length v_str = unat ?len" and b: "unat ?len < 2 ^ 64 - 4"
    using assms by simp_all
  have "Ppx_fold_blob h ?len v_str = Some (fold_blob_spec h (unat ?len) v_str)" for h
  proof -
    obtain j where j: "blob_loop v_str ?len 0 h = Some (j, fst (blocks_spec h v_str))"
      and t: "blob_tail v_str ?len j (fst (blocks_spec h v_str)) =
          (if unat ?len mod 4 = 1 \<or> unat ?len mod 4 = 2 \<or> unat ?len mod 4 = 3
           then mix_step_spec (fst (blocks_spec h v_str)) (le_word (snd (blocks_spec h v_str)))
           else fst (blocks_spec h v_str))"
      using blob_loop_tail_refines [OF l b, of h] by blast
    show ?thesis
      unfolding Ppx_fold_blob_def fold_blob_spec_def
      by (simp only: j t ucast_len_low32 option.case prod.case Let_def case_prod_beta
            fst_conv snd_conv)
  qed
  then show ?thesis
    by (simp add: Ppx_fold_string_def u)
qed

lemma Ppx_get_hash_value_Val_long:
  "Ppx_get_hash_value (Val_long (ucast (h :: uint32_t))) = FINAL_MIX_AND_RETURN h"
  by (simp only: Ppx_get_hash_value_def Let_def Int_val_Val_long FINAL_MIX_AND_RETURN_eq)

text \<open>
  C3.  For every byte sequence, the empty one included, \<^verbatim>\<open>Ppx_hash_string\<close> returns
  what \<^verbatim>\<open>Ppx_get_hash_value\<close> returns on the state that \<^verbatim>\<open>Ppx_fold_string\<close> computes
  from the accumulator 0; and for every double and every \<^verbatim>\<open>caml_hash_mix_double\<close>,
  \<^verbatim>\<open>Ppx_hash_double\<close> returns what \<^verbatim>\<open>Ppx_get_hash_value\<close> returns on the state that
  \<^verbatim>\<open>Ppx_fold_float\<close> computes from the accumulator 0.  The bound on the length holds
  of every OCaml string.
\<close>

theorem Ppx_hash_direct_eq_fold_finalize:
  "(length b < 2 ^ 64 - 4 \<longrightarrow>
      map_option Ppx_get_hash_value (Ppx_fold_string (Val_long 0) b) = Some (Ppx_hash_string b))
   \<and> Ppx_hash_double caml_hash_mix_double d
       = Ppx_get_hash_value (Ppx_fold_float caml_hash_mix_double (Val_long 0) d)"
proof -
  have z: "(ucast (Long_val (Val_long 0)) :: uint32_t) = 0"
    by (simp only: Long_val_Val_long_0) simp
  have s: "map_option Ppx_get_hash_value (Ppx_fold_string (Val_long 0) b)
      = Some (Ppx_hash_string b)" if "length b < 2 ^ 64 - 4"
    using Ppx_fold_string_eq_spec [OF that, of "Val_long 0"]
    by (simp only: z Ppx_hash_string_def caml_hash_mix_string_def Let_def
          option.map Ppx_get_hash_value_Val_long)
  have "Ppx_hash_double caml_hash_mix_double d
       = Ppx_get_hash_value (Ppx_fold_float caml_hash_mix_double (Val_long 0) d)"
    by (simp only: Ppx_hash_double_def Ppx_fold_float_def Let_def z
          Ppx_get_hash_value_Val_long)
  with s show ?thesis
    by blast
qed

theorem Ppx_hash_direct_eq_fold_finalize_witness:
  "length ([] :: uint8_t list) < 2 ^ 64 - 4
   \<and> map_option Ppx_get_hash_value (Ppx_fold_string (Val_long 0) []) = Some (Ppx_hash_string [])
   \<and> Ppx_hash_string [] = Val_long 0
   \<and> map_option Ppx_get_hash_value (Ppx_fold_string (Val_long 0) [0x61, 0x62, 0x63, 0x64, 0x65])
       = Some (Ppx_hash_string [0x61, 0x62, 0x63, 0x64, 0x65])"
  using Ppx_hash_direct_eq_fold_finalize [of "[]" "\<lambda>h (d :: unit). h" "()"]
    Ppx_hash_direct_eq_fold_finalize [of "[0x61, 0x62, 0x63, 0x64, 0x65]" "\<lambda>h (d :: unit). h" "()"]
  by (simp add: Ppx_hash_string_def caml_hash_mix_string_def fold_blob_spec_def
        FINAL_MIX_AND_RETURN_def Val_int_def)

section \<open>The fixed-width folds and the block step\<close>

lemma block_word_le_bytes: "block_word (le_bytes v) 0 = v"
proof -
  have "block_word (le_bytes v) 0 =
      ucast (ucast v :: uint8_t)
      OR push_bit 8 (ucast (ucast (drop_bit 8 v) :: uint8_t))
      OR push_bit 16 (ucast (ucast (drop_bit 16 v) :: uint8_t))
      OR push_bit 24 (ucast (ucast (drop_bit 24 v) :: uint8_t))"
    by (simp add: block_word_def le_bytes_def)
  also have "\<dots> = v"
  proof (rule bit_word_eqI)
    fix n assume "n < LENGTH(32)"
    then have "n < 32" by simp
    then consider "n < 8" | "8 \<le> n" "n < 16" | "16 \<le> n" "n < 24" | "24 \<le> n" "n < 32"
      by linarith
    then show "bit (ucast (ucast v :: uint8_t)
        OR push_bit 8 (ucast (ucast (drop_bit 8 v) :: uint8_t))
        OR push_bit 16 (ucast (ucast (drop_bit 16 v) :: uint8_t))
        OR push_bit 24 (ucast (ucast (drop_bit 24 v) :: uint8_t)) :: uint32_t) n = bit v n"
      by cases (auto simp: bit_simps)
  qed
  finally show ?thesis .
qed

lemma blob_loop_one_block: "blob_loop (le_bytes v) 4 0 h = Some (4, MIX h v)"
proof -
  have "blob_loop (le_bytes v) 4 0 h = blob_loop (le_bytes v) 4 4 (MIX h v)"
    by (subst blob_loop.simps) (simp add: block_word_le_bytes)
  also have "\<dots> = Some (4, MIX h v)"
    by (subst blob_loop.simps) simp
  finally show ?thesis .
qed

text \<open>
  C5.  \<^verbatim>\<open>Ppx_fold_int32\<close> mixes the 32 bits of its argument into the low 32 bits of
  the state with one \<^verbatim>\<open>MIX\<close> step, and this is the step that the block loop of
  \<^verbatim>\<open>Ppx_fold_blob\<close> runs on the four little-endian bytes of the same word.  The
  whole of \<^verbatim>\<open>Ppx_fold_blob\<close> on these four bytes then xors the length 4 into the
  state, which a fold of a 32-bit integer does not.
\<close>

theorem Ppx_fold_int32_single_block:
  "Ppx_fold_int32 st v = Val_long (ucast (MIX (ucast (Long_val st)) v))
   \<and> Ppx_fold_int32 (Val_long (ucast h)) v = Val_long (ucast (MIX h v))
   \<and> blob_loop (le_bytes v) 4 0 h = Some (4, MIX h v)
   \<and> Ppx_fold_blob h 4 (le_bytes v) = Some (MIX h v XOR 4)"
proof -
  have a: "Ppx_fold_int32 st v = Val_long (ucast (MIX (ucast (Long_val st)) v))" for st
    by (simp only: Ppx_fold_int32_def caml_hash_mix_uint32_def)
  have b: "Ppx_fold_int32 (Val_long (ucast h)) v = Val_long (ucast (MIX h v))"
    by (simp only: a Long_val_Val_long_ucast ucast_ucast_32_64)
  have "blob_tail (le_bytes v) 4 4 (MIX h v) = MIX h v"
    by (simp add: blob_tail_def)
  then have c: "Ppx_fold_blob h 4 (le_bytes v) = Some (MIX h v XOR 4)"
    by (simp add: Ppx_fold_blob_def blob_loop_one_block)
  from a b c show ?thesis
    by (simp only: blob_loop_one_block simp_thms)
qed

text \<open>
  C7.  For every \<^verbatim>\<open>caml_hash_mix_intnat\<close>, every state and every tagged integer \<open>i\<close>,
  \<^verbatim>\<open>Ppx_fold_int\<close> returns what \<^verbatim>\<open>Ppx_fold_nativeint\<close> returns on the native integer
  \<^verbatim>\<open>Long_val(i)\<close>; in particular on every 63-bit OCaml integer \<open>v\<close>, whose tagged
  form is \<open>Val_long (scast v)\<close> and whose native form is \<open>scast v\<close>.
\<close>

theorem Ppx_fold_int_eq_nativeint:
  "Ppx_fold_int caml_hash_mix_intnat st i
     = Ppx_fold_nativeint caml_hash_mix_intnat st (Long_val i)
   \<and> Ppx_fold_int caml_hash_mix_intnat st (Val_long (scast (v :: 63 word)))
     = Ppx_fold_nativeint caml_hash_mix_intnat st (scast v)"
  by (simp only: Ppx_fold_int_def Ppx_fold_nativeint_def Long_val_Val_long_scast simp_thms)

section \<open>Order of the folds\<close>

text \<open>
  C8.  Folding is order-sensitive: there are two different byte sequences \<open>a\<close>
  and \<open>b\<close> such that folding \<open>a\<close> and then \<open>b\<close> from the accumulator 0 and
  finalizing gives another output than folding \<open>b\<close> and then \<open>a\<close>.  The one-byte
  strings "a" and "b" do.
\<close>

theorem fold_order_sensitive:
  "\<exists>a b x y. a \<noteq> b
     \<and> map_option Ppx_get_hash_value
          (Option.bind (Ppx_fold_string (Val_long 0) a) (\<lambda>st. Ppx_fold_string st b)) = Some x
     \<and> map_option Ppx_get_hash_value
          (Option.bind (Ppx_fold_string (Val_long 0) b) (\<lambda>st. Ppx_fold_string st a)) = Some y
     \<and> x \<noteq> y"
proof -
  have ab: "Ppx_fold_string (Val_long 0) [0x61] = Some (Val_long 813284752)"
    by (simp add: Ppx_fold_string_def caml_string_length_def Ppx_fold_blob_def
          blob_loop.simps blob_tail_def MIX_def ROTL32_def Long_val_def Val_long_def Let_def
          word_le_nat_alt)
  have ba: "Ppx_fold_string (Val_long 0) [0x62] = Some (Val_long 2163472103)"
    by (simp add: Ppx_fold_string_def caml_string_length_def Ppx_fold_blob_def
          blob_loop.simps blob_tail_def MIX_def ROTL32_def Long_val_def Val_long_def Let_def
          word_le_nat_alt)
  have ab2: "Ppx_fold_string (Val_long 813284752) [0x62] = Some (Val_long 2992232652)"
    by (simp add: Ppx_fold_string_def caml_string_length_def Ppx_fold_blob_def
          blob_loop.simps blob_tail_def MIX_def ROTL32_def Long_val_def Val_long_def Let_def
          word_le_nat_alt)
  have ba2: "Ppx_fold_string (Val_long 2163472103) [0x61] = Some (Val_long 567553494)"
    by (simp add: Ppx_fold_string_def caml_string_length_def Ppx_fold_blob_def
          blob_loop.simps blob_tail_def MIX_def ROTL32_def Long_val_def Val_long_def Let_def
          word_le_nat_alt)
  have fa: "Ppx_get_hash_value (Val_long 2992232652) = Val_long 243038927"
    by (simp add: Ppx_get_hash_value_def Int_val_def Val_int_def FINAL_MIX_def
          Long_val_def Val_long_def)
  have fb: "Ppx_get_hash_value (Val_long 567553494) = Val_long 196697155"
    by (simp add: Ppx_get_hash_value_def Int_val_def Val_int_def FINAL_MIX_def
          Long_val_def Val_long_def)
  have ne: "Val_long 243038927 \<noteq> Val_long 196697155" "[0x61 :: uint8_t] \<noteq> [0x62]"
    by (simp_all add: Val_long_def)
  have "map_option Ppx_get_hash_value
          (Option.bind (Ppx_fold_string (Val_long 0) [0x61]) (\<lambda>st. Ppx_fold_string st [0x62]))
        = Some (Val_long 243038927)"
    by (simp only: ab ab2 fa Option.bind.simps option.map)
  moreover have "map_option Ppx_get_hash_value
          (Option.bind (Ppx_fold_string (Val_long 0) [0x62]) (\<lambda>st. Ppx_fold_string st [0x61]))
        = Some (Val_long 196697155)"
    by (simp only: ba ba2 fb Option.bind.simps option.map)
  ultimately show ?thesis
    using ne by blast
qed

end
